theory Spec2Isabelle
  imports Main
begin

section \<open>Data model of QueuedStoreGroup\<close>

text \<open>
  Stores, subscriber callbacks and use cases are objects compared by reference; the model
  names each by a number. Arrays are objects too: the array of changing stores is mutated
  in place (\<open>push\<close>, \<open>length = 0\<close>) and copied (\<open>slice\<close>), so arrays of
  stores live in an explicit heap, a list of array contents indexed by address.
\<close>

type_synonym store = nat
type_synonym handler = nat
type_synonym useCase = nat
type_synonym addr = nat

text \<open>The payload classes \<open>tryToEmitChange\<close> tells apart by \<open>instanceof\<close>; every other
  payload is \<open>OtherPayload\<close> with its type tag.\<close>

datatype payload = ErrorPayload | DidExecutedPayload | CompletedPayload | OtherPayload string

record DispatcherPayloadMeta =
  isTrusted :: bool
  parentUseCase :: "useCase option"

record QueuedStoreGroupOption =
  asap :: "bool option"

datatype error = AssertionError string

text \<open>
  The functions pushed on \<open>_releaseHandlers\<close>: what \<open>store.onChange\<close> returns, what
  \<open>this.pipe(store)\<close> returns, what \<open>this.onDispatch(tryToEmitChange)\<close> returns, and
  \<open>removeListener\<close> bound to a handler by \<open>onChange\<close>.
\<close>

datatype releaseHandler =
    ReleaseOnChangeHandler store
  | ReleaseOnDispatchHandler store
  | UnListenOnDispatch
  | RemoveChangeListener handler

text \<open>
  The object's own fields (\<open>_releaseHandlers\<close>, \<open>_currentChangingStores\<close>, \<open>stores\<close>,
  \<open>_isAnyOneStoreChanged\<close>), the constant \<open>asap\<close> the constructor's closure captures, the
  heap of store arrays, the subscriptions held by the event emitters (of the stores and of
  the group itself), and a trace of what the group did to the outside: every \<open>emit\<close> of
  the change event, every delivery to a subscriber, every release handler called.

  \<open>_isAnyOneStoreChanged\<close> is never initialised, so it starts as \<open>undefined\<close>; the code
  reads it only through \<open>!\<close>, where \<open>undefined\<close> and \<open>false\<close> agree, so it is a bool
  that starts False.
\<close>

record QueuedStoreGroup =
  p_releaseHandlers :: "releaseHandler list"
  p_currentChangingStores :: addr
  stores :: "store list"
  p_isAnyOneStoreChanged :: bool
  c_asap :: bool
  heap :: "store list list"
  storeListeners :: "store list"
  pipedStores :: "store list"
  dispatchListening :: bool
  changeListeners :: "handler list"
  emitted :: "addr list"
  delivered :: "(handler \<times> addr) list"
  released :: "releaseHandler list"

text \<open>The reference in \<open>_currentChangingStores\<close> points to an allocated array.\<close>

definition wf_group :: "QueuedStoreGroup \<Rightarrow> bool" where
  "wf_group g = (p_currentChangingStores g < length (heap g))"

section \<open>Array operations on the heap\<close>

definition array_at :: "QueuedStoreGroup \<Rightarrow> addr \<Rightarrow> store list" where
  "array_at g a = heap g ! a"

text \<open>\<open>array.slice()\<close>: a new array with the same elements; returns its address.\<close>

definition slice :: "QueuedStoreGroup \<Rightarrow> addr \<Rightarrow> addr \<times> QueuedStoreGroup" where
  "slice g a = (length (heap g), g\<lparr>heap := heap g @ [heap g ! a]\<rparr>)"

text \<open>\<open>array.push(store)\<close>, in place.\<close>

definition push :: "QueuedStoreGroup \<Rightarrow> addr \<Rightarrow> store \<Rightarrow> QueuedStoreGroup" where
  "push g a s = g\<lparr>heap := (heap g)[a := heap g ! a @ [s]]\<rparr>"

text \<open>\<open>array.length = 0\<close>, in place.\<close>

definition truncate_array :: "QueuedStoreGroup \<Rightarrow> addr \<Rightarrow> QueuedStoreGroup" where
  "truncate_array g a = g\<lparr>heap := (heap g)[a := []]\<rparr>"

section \<open>The methods of QueuedStoreGroup\<close>

text \<open>The getter \<open>currentChangingStores\<close> returns the array itself, not a copy.\<close>

definition currentChangingStores :: "QueuedStoreGroup \<Rightarrow> addr" where
  "currentChangingStores g = p_currentChangingStores g"

definition hasChangingStore :: "QueuedStoreGroup \<Rightarrow> bool" where
  "hasChangingStore g = (length (array_at g (currentChangingStores g)) \<noteq> 0)"

definition pruneCurrentChangingStores :: "QueuedStoreGroup \<Rightarrow> QueuedStoreGroup" where
  "pruneCurrentChangingStores g = truncate_array g (p_currentChangingStores g)"

text \<open>
  \<open>this.emit(CHANGE_STORE_GROUP, changingStores)\<close>: one emit, delivered to every listener
  of the change event in the order they subscribed. Listeners are taken not to call back
  into the group while the emit runs.
\<close>

definition emit :: "QueuedStoreGroup \<Rightarrow> addr \<Rightarrow> QueuedStoreGroup" where
  "emit g a = g\<lparr>emitted := emitted g @ [a],
                delivered := delivered g @ map (\<lambda>h. (h, a)) (changeListeners g)\<rparr>"

definition emitChange :: "QueuedStoreGroup \<Rightarrow> QueuedStoreGroup" where
  "emitChange g =
     (if \<not> p_isAnyOneStoreChanged g then g
      else (case slice g (p_currentChangingStores g) of
              (changingStores, g1) \<Rightarrow> (emit g1 changingStores)\<lparr>p_isAnyOneStoreChanged := False\<rparr>))"

text \<open>The callback \<open>_registerStore\<close> hands to \<open>store.onChange\<close>, for the store it closes over.\<close>

definition storeOnChange :: "store \<Rightarrow> QueuedStoreGroup \<Rightarrow> QueuedStoreGroup" where
  "storeOnChange store g =
     (let g1 = (if \<not> p_isAnyOneStoreChanged g then pruneCurrentChangingStores g else g);
          g2 = g1\<lparr>p_isAnyOneStoreChanged := True\<rparr>;
          isStoreAlreadyChanging = (store \<in> set (array_at g2 (p_currentChangingStores g2)))
      in if isStoreAlreadyChanging then g2
         else push g2 (p_currentChangingStores g2) store)"

definition registerStore :: "QueuedStoreGroup \<Rightarrow> store \<Rightarrow> QueuedStoreGroup" where
  "registerStore g store =
     g\<lparr>storeListeners := storeListeners g @ [store],
       pipedStores := pipedStores g @ [store],
       p_releaseHandlers := p_releaseHandlers g @
          [ReleaseOnChangeHandler store, ReleaseOnDispatchHandler store]\<rparr>"

definition isErrorPayload :: "payload \<Rightarrow> bool" where
  "isErrorPayload p = (p = ErrorPayload)"

definition isDidExecutedPayload :: "payload \<Rightarrow> bool" where
  "isDidExecutedPayload p = (p = DidExecutedPayload)"

definition isCompletedPayload :: "payload \<Rightarrow> bool" where
  "isCompletedPayload p = (p = CompletedPayload)"

definition tryToEmitChange ::
  "QueuedStoreGroup \<Rightarrow> payload \<Rightarrow> DispatcherPayloadMeta \<Rightarrow> QueuedStoreGroup" where
  "tryToEmitChange g p m =
     (if \<not> isTrusted m then
        (if hasChangingStore g then emitChange g else g)
      else if isErrorPayload p then
        (if hasChangingStore g then emitChange g else g)
      else if isDidExecutedPayload p then
        (if \<not> c_asap g \<and> parentUseCase m \<noteq> None then g
         else if hasChangingStore g then emitChange g else g)
      else if isCompletedPayload p then
        (if \<not> c_asap g \<and> parentUseCase m \<noteq> None then g
         else if hasChangingStore g then emitChange g else g)
      else g)"

definition defaultOptions_asap :: bool where
  "defaultOptions_asap = False"

text \<open>
  The constructor. \<open>StoreGroupValidator.validateStores\<close> is not among the sources, so it is
  a parameter: it answers with the error it throws, or None when it accepts the stores.
\<close>

definition newQueuedStoreGroup ::
  "(store list \<Rightarrow> error option) \<Rightarrow> store list \<Rightarrow> QueuedStoreGroupOption
     \<Rightarrow> error + QueuedStoreGroup" where
  "newQueuedStoreGroup validateStores sts options =
     (case validateStores sts of
        Some e \<Rightarrow> Inl e
      | None \<Rightarrow>
         (let a = (case asap options of Some b \<Rightarrow> b | None \<Rightarrow> defaultOptions_asap);
              g0 = \<lparr>p_releaseHandlers = [], p_currentChangingStores = 0, stores = sts,
                    p_isAnyOneStoreChanged = False, c_asap = a, heap = [[]],
                    storeListeners = [], pipedStores = [], dispatchListening = False,
                    changeListeners = [], emitted = [], delivered = [], released = []\<rparr>;
              g1 = foldl registerStore g0 sts
          in Inr (g1\<lparr>dispatchListening := True,
                      p_releaseHandlers := p_releaseHandlers g1 @ [UnListenOnDispatch]\<rparr>)))"

definition onChange :: "QueuedStoreGroup \<Rightarrow> handler \<Rightarrow> releaseHandler \<times> QueuedStoreGroup" where
  "onChange g h =
     (RemoveChangeListener h,
      g\<lparr>changeListeners := changeListeners g @ [h],
        p_releaseHandlers := p_releaseHandlers g @ [RemoveChangeListener h]\<rparr>)"

subsection \<open>Release handlers\<close>

text \<open>
  Modelled from the spec: \<open>EventEmitter.removeListener\<close> of the host framework, whose code
  is not among the sources. It removes one registration of the listener, the most recent.
\<close>

definition removeListener :: "'a \<Rightarrow> 'a list \<Rightarrow> 'a list" where
  "removeListener h hs = rev (remove1 h (rev hs))"

text \<open>
  Modelled from the spec: the unsubscribe capabilities of the host framework (what
  \<open>Store.onChange\<close>, \<open>Dispatcher.pipe\<close> and \<open>Dispatcher.onDispatch\<close> return, and
  \<open>removeListener\<close> bound to a handler), whose code is not among the sources. "Subscribing
  returns a capability to unsubscribe": calling one removes the subscription that produced
  it, and nothing else.
\<close>

fun unsubscribe :: "releaseHandler \<Rightarrow> QueuedStoreGroup \<Rightarrow> QueuedStoreGroup" where
  "unsubscribe (ReleaseOnChangeHandler s) g = g\<lparr>storeListeners := removeListener s (storeListeners g)\<rparr>"
| "unsubscribe (ReleaseOnDispatchHandler s) g = g\<lparr>pipedStores := removeListener s (pipedStores g)\<rparr>"
| "unsubscribe UnListenOnDispatch g = g\<lparr>dispatchListening := False\<rparr>"
| "unsubscribe (RemoveChangeListener h) g = g\<lparr>changeListeners := removeListener h (changeListeners g)\<rparr>"

definition callReleaseHandler :: "QueuedStoreGroup \<Rightarrow> releaseHandler \<Rightarrow> QueuedStoreGroup" where
  "callReleaseHandler g r = (unsubscribe r g)\<lparr>released := released (unsubscribe r g) @ [r]\<rparr>"

text \<open>\<open>release\<close>: \<open>forEach\<close> over the handlers, then \<open>length = 0\<close>.\<close>

definition release :: "QueuedStoreGroup \<Rightarrow> QueuedStoreGroup" where
  "release g = (foldl callReleaseHandler g (p_releaseHandlers g))\<lparr>p_releaseHandlers := []\<rparr>"

section \<open>The group in its environment\<close>

text \<open>
  What can happen to a group. The host framework delivers events: a store that announces a
  change calls each callback subscribed to it; an event on the group's dispatch stream
  reaches \<open>tryToEmitChange\<close> while it is subscribed.
  Store changes that a dispatched event causes through the pipes come before the
  \<open>Dispatched\<close> event itself, since the pipes subscribe before \<open>tryToEmitChange\<close> does.
  The caller's own moves are \<open>emitChange()\<close>, \<open>onChange(handler)\<close>, calling the function
  that \<open>onChange(handler)\<close> returned, and \<open>release()\<close>.
\<close>

datatype event =
    StoreChanged store
  | Dispatched payload DispatcherPayloadMeta
  | CallEmitChange
  | CallOnChange handler
  | CallUnsubscribe handler
  | CallRelease

text \<open>
  Modelled from the spec: a store's \<open>emitChange()\<close>, whose code is not among the sources. It
  calls, in order, the callbacks subscribed to that store's change event.
\<close>

definition storeEmitsChange :: "store \<Rightarrow> QueuedStoreGroup \<Rightarrow> QueuedStoreGroup" where
  "storeEmitsChange s g = fold (\<lambda>l. storeOnChange l) (filter (\<lambda>l. l = s) (storeListeners g)) g"

text \<open>
  Modelled from the spec: \<open>Dispatcher.dispatch\<close> on the group, whose code is not among the
  sources, as far as the group's own listener goes: \<open>tryToEmitChange\<close> is called while it
  is subscribed.
\<close>

definition dispatch :: "payload \<Rightarrow> DispatcherPayloadMeta \<Rightarrow> QueuedStoreGroup \<Rightarrow> QueuedStoreGroup" where
  "dispatch p m g = (if dispatchListening g then tryToEmitChange g p m else g)"

fun step :: "event \<Rightarrow> QueuedStoreGroup \<Rightarrow> QueuedStoreGroup" where
  "step (StoreChanged s) g = storeEmitsChange s g"
| "step (Dispatched p m) g = dispatch p m g"
| "step CallEmitChange g = emitChange g"
| "step (CallOnChange h) g = snd (onChange g h)"
| "step (CallUnsubscribe h) g = callReleaseHandler g (RemoveChangeListener h)"
| "step CallRelease g = release g"

fun run :: "event list \<Rightarrow> QueuedStoreGroup \<Rightarrow> QueuedStoreGroup" where
  "run [] g = g"
| "run (e # es) g = run es (step e g)"

section \<open>getState\<close>

text \<open>
  What a store's \<open>getState()\<close> may return. An object is the list of its own enumerable
  properties as written, a repeated key keeping the value written last.
\<close>

datatype jsval =
    JUndefined
  | JNull
  | JBoolean bool
  | JNumber int
  | JString string
  | JSymbol string
  | JFunction nat
  | JObject "(string \<times> jsval) list"

text \<open>JavaScript's \<open>typeof\<close>; \<open>typeof null\<close> is \<open>"object"\<close>.\<close>

fun typeof :: "jsval \<Rightarrow> string" where
  "typeof JUndefined = ''undefined''"
| "typeof JNull = ''object''"
| "typeof (JBoolean b) = ''boolean''"
| "typeof (JNumber n) = ''number''"
| "typeof (JString s) = ''string''"
| "typeof (JSymbol s) = ''symbol''"
| "typeof (JFunction f) = ''function''"
| "typeof (JObject kvs) = ''object''"

text \<open>What the group reads of a store object: \<open>store.name\<close>, the string \<open>${store}\<close> and the
  value of \<open>store.getState()\<close>.\<close>

record storeObject =
  store_name :: string
  store_toString :: string
  store_getState :: jsval

fun showNat :: "nat \<Rightarrow> string" where
  "showNat n = (if n < 10 then [char_of (48 + n)] else showNat (n div 10) @ [char_of (48 + n mod 10)])"

text \<open>
  The own enumerable properties \<open>Object.assign\<close> copies from a source: none from
  \<open>null\<close>, \<open>undefined\<close>, a boolean, a number, a symbol or a function without properties;
  the characters of a string under their indices; the properties of an object.
\<close>

fun ownEnumerable :: "jsval \<Rightarrow> (string \<times> jsval) list" where
  "ownEnumerable (JObject kvs) = kvs"
| "ownEnumerable (JString s) = map (\<lambda>i. (showNat i, JString [s ! i])) [0 ..< length s]"
| "ownEnumerable v = []"

definition assignFrom :: "(string \<rightharpoonup> jsval) \<Rightarrow> jsval \<Rightarrow> (string \<rightharpoonup> jsval)" where
  "assignFrom target source = foldl (\<lambda>t (k, v). t(k \<mapsto> v)) target (ownEnumerable source)"

text \<open>\<open>ObjectAssign(target, ...sources)\<close>: the sources in order, each key set to the value
  of the last source that has it.\<close>

definition ObjectAssign :: "(string \<rightharpoonup> jsval) \<Rightarrow> jsval list \<Rightarrow> (string \<rightharpoonup> jsval)" where
  "ObjectAssign target sources = foldl assignFrom target sources"

definition exampleText :: string where
  "exampleText =
     [CHR 0x0A] @ ''e.g.)'' @ [CHR 0x0A] @
     [CHR 0x0A] @
     '' class ExampleStore extends Store {'' @ [CHR 0x0A] @
     ''     getState(prevState) {'' @ [CHR 0x0A] @
     ''         return {'' @ [CHR 0x0A] @
     ''            StateName: state'' @ [CHR 0x0A] @
     ''         };'' @ [CHR 0x0A] @
     ''     }'' @ [CHR 0x0A] @
     '' }'' @ [CHR 0x0A] @
     '' '' @ [CHR 0x0A] @
     ''Then, use can access by StateName.'' @ [CHR 0x0A] @
     [CHR 0x0A] @
     ''StoreGroup#getState()['' @ [CHR 0x22] @ ''StateName'' @ [CHR 0x22] @ '']; // state'' @ [CHR 0x0A] @
     [CHR 0x0A]"

definition assertionMessage :: "storeObject \<Rightarrow> string" where
  "assertionMessage st =
     store_toString st @ '': '' @ store_name st @ ''.getState() should return Object.'' @ exampleText"

text \<open>
  \<open>this.stores.map(store => ...)\<close>: the stores in order; in a build where
  \<open>process.env.NODE_ENV\<close> is not \<open>"production"\<close>, \<open>assert.ok\<close> throws at the first store
  whose state has another \<open>typeof\<close> than \<open>"object"\<close>.
\<close>

fun stateMapOf :: "string option \<Rightarrow> (store \<Rightarrow> storeObject) \<Rightarrow> store list \<Rightarrow> error + jsval list" where
  "stateMapOf nodeEnv obj [] = Inr []"
| "stateMapOf nodeEnv obj (s # ss) =
     (let nextState = store_getState (obj s) in
      if nodeEnv \<noteq> Some ''production'' \<and> \<not> (typeof nextState = ''object'')
      then Inl (AssertionError (assertionMessage (obj s)))
      else (case stateMapOf nodeEnv obj ss of
              Inl e \<Rightarrow> Inl e
            | Inr rest \<Rightarrow> Inr (nextState # rest)))"

definition getState ::
  "string option \<Rightarrow> (store \<Rightarrow> storeObject) \<Rightarrow> QueuedStoreGroup \<Rightarrow> error + (string \<rightharpoonup> jsval)" where
  "getState nodeEnv obj g =
     (case stateMapOf nodeEnv obj (stores g) of
        Inl e \<Rightarrow> Inl e
      | Inr stateMap \<Rightarrow> Inr (ObjectAssign Map.empty stateMap))"

section \<open>Auxiliary notions for the proofs\<close>

text \<open>
  \<open>keeps a g g'\<close>: going from \<open>g\<close> to \<open>g'\<close>, the group still refers to the same
  allocated array, no array was freed, and the array at address \<open>a\<close> has the same elements.
\<close>

definition keeps :: "addr \<Rightarrow> QueuedStoreGroup \<Rightarrow> QueuedStoreGroup \<Rightarrow> bool" where
  "keeps a g g' = (wf_group g' \<and> p_currentChangingStores g' = p_currentChangingStores g \<and>
      length (heap g) \<le> length (heap g') \<and> heap g' ! a = heap g ! a)"

text \<open>\<open>firstChange cs x\<close>: the position in \<open>cs\<close> at which \<open>x\<close> occurs first.\<close>

definition firstChange :: "store list \<Rightarrow> store \<Rightarrow> nat" where
  "firstChange cs x = length (takeWhile (\<lambda>y. y \<noteq> x) cs)"

text \<open>What a run of store-change callbacks leaves in an array that held \<open>acc\<close>.\<close>

fun pushNew :: "store list \<Rightarrow> store list \<Rightarrow> store list" where
  "pushNew acc [] = acc"
| "pushNew acc (s # cs) = pushNew (if s \<in> set acc then acc else acc @ [s]) cs"

text \<open>The events that come from the stores and from the dispatch stream.\<close>

fun isNotification :: "event \<Rightarrow> bool" where
  "isNotification (StoreChanged s) = True"
| "isNotification (Dispatched p m) = True"
| "isNotification e = False"

text \<open>Every subscription the group holds has its release handler on record, as often as
  it is held.\<close>

definition subscriptionsRecorded :: "QueuedStoreGroup \<Rightarrow> bool" where
  "subscriptionsRecorded g =
     ((\<forall>s. count_list (storeListeners g) s
            \<le> count_list (p_releaseHandlers g) (ReleaseOnChangeHandler s)) \<and>
      (dispatchListening g \<longrightarrow> UnListenOnDispatch \<in> set (p_releaseHandlers g)))"

text \<open>A change the flag records is also in the array of changing stores.\<close>

definition changeRecorded :: "QueuedStoreGroup \<Rightarrow> bool" where
  "changeRecorded g = (p_isAnyOneStoreChanged g \<longrightarrow> hasChangingStore g)"

text \<open>The definitions a concrete run is evaluated with.\<close>

lemmas eval_defs = newQueuedStoreGroup_def registerStore_def defaultOptions_asap_def
  storeEmitsChange_def storeOnChange_def pruneCurrentChangingStores_def truncate_array_def
  push_def array_at_def dispatch_def tryToEmitChange_def hasChangingStore_def
  currentChangingStores_def emitChange_def slice_def emit_def wf_group_def Let_def
  isErrorPayload_def isDidExecutedPayload_def isCompletedPayload_def onChange_def
  release_def callReleaseHandler_def removeListener_def

section \<open>First occurrences\<close>

lemma pushNew_snoc:
  "pushNew acc (cs @ [s]) = (if s \<in> set (pushNew acc cs) then pushNew acc cs else pushNew acc cs @ [s])"
  by (induction cs arbitrary: acc) simp_all

lemma set_pushNew: "set (pushNew acc cs) = set acc \<union> set cs"
  by (induction cs arbitrary: acc) auto

lemma distinct_pushNew: "distinct acc \<Longrightarrow> distinct (pushNew acc cs)"
  by (induction cs arbitrary: acc) auto

lemma firstChange_less: "x \<in> set cs \<Longrightarrow> firstChange cs x < length cs"
proof -
  assume "x \<in> set cs"
  then have "takeWhile (\<lambda>y. y \<noteq> x) cs \<noteq> cs"
    by auto
  then have "length (takeWhile (\<lambda>y. y \<noteq> x) cs) \<noteq> length cs"
    by (metis takeWhile_eq_take take_all_iff order_refl)
  then show ?thesis
    unfolding firstChange_def using length_takeWhile_le [of "\<lambda>y. y \<noteq> x" cs] by linarith
qed

lemma firstChange_append_in: "x \<in> set cs \<Longrightarrow> firstChange (cs @ ds) x = firstChange cs x"
  unfolding firstChange_def by simp

lemma firstChange_snoc_new: "s \<notin> set cs \<Longrightarrow> firstChange (cs @ [s]) s = length cs"
proof -
  assume "s \<notin> set cs"
  then have "\<And>x. x \<in> set cs \<Longrightarrow> x \<noteq> s" by blast
  then have "takeWhile (\<lambda>y. y \<noteq> s) (cs @ [s]) = cs @ takeWhile (\<lambda>y. y \<noteq> s) [s]"
    by (rule takeWhile_append2)
  then show ?thesis unfolding firstChange_def by simp
qed

lemma sorted_pushNew:
  "sorted_wrt (\<lambda>x y. firstChange cs x < firstChange cs y) (pushNew [] cs)"
proof (induction cs rule: rev_induct)
  case Nil
  then show ?case by simp
next
  case (snoc s cs)
  let ?r = "pushNew [] cs"
  have mem: "set ?r = set cs" by (simp add: set_pushNew)
  have old: "sorted_wrt (\<lambda>x y. firstChange (cs @ [s]) x < firstChange (cs @ [s]) y) ?r"
    using snoc.IH
    by (rule sorted_wrt_mono_rel [rotated]) (simp add: mem firstChange_append_in)
  show ?case
  proof (cases "s \<in> set cs")
    case True
    then show ?thesis using old mem by (simp add: pushNew_snoc)
  next
    case False
    have "\<forall>x\<in>set ?r. firstChange (cs @ [s]) x < firstChange (cs @ [s]) s"
      using False mem by (simp add: firstChange_append_in firstChange_snoc_new firstChange_less)
    then show ?thesis using old mem False
      by (simp add: pushNew_snoc sorted_wrt_append)
  qed
qed

lemma pushNew_append: "pushNew acc (cs @ ds) = pushNew (pushNew acc cs) ds"
  by (induction cs arbitrary: acc) simp_all

section \<open>What emitChange and the store-change callback do to the fields\<close>

lemma emitChange_unchanged: "\<not> p_isAnyOneStoreChanged g \<Longrightarrow> emitChange g = g"
  by (simp add: emitChange_def)

lemma emitChange_fields:
  "p_isAnyOneStoreChanged g \<Longrightarrow>
     emitChange g = g\<lparr>heap := heap g @ [heap g ! p_currentChangingStores g],
                      emitted := emitted g @ [length (heap g)],
                      delivered := delivered g @ map (\<lambda>h. (h, length (heap g))) (changeListeners g),
                      p_isAnyOneStoreChanged := False\<rparr>"
  by (simp add: emitChange_def slice_def emit_def)

lemma storeOnChange_fields:
  "wf_group g \<Longrightarrow> storeOnChange s g =
     g\<lparr>p_isAnyOneStoreChanged := True,
       heap := (heap g)[p_currentChangingStores g :=
          pushNew (if p_isAnyOneStoreChanged g then heap g ! p_currentChangingStores g else []) [s]]\<rparr>"
  by (auto simp add: wf_group_def storeOnChange_def pruneCurrentChangingStores_def truncate_array_def push_def array_at_def Let_def)

lemma fold_storeOnChange_fields:
  "wf_group g \<Longrightarrow> cs \<noteq> [] \<Longrightarrow> fold storeOnChange cs g =
     g\<lparr>p_isAnyOneStoreChanged := True,
       heap := (heap g)[p_currentChangingStores g :=
          pushNew (if p_isAnyOneStoreChanged g then heap g ! p_currentChangingStores g else []) cs]\<rparr>"
proof (induction cs rule: rev_induct)
  case Nil
  then show ?case by simp
next
  case (snoc s cs)
  show ?case
  proof (cases "cs = []")
    case True
    then show ?thesis using snoc.prems by (simp add: storeOnChange_fields)
  next
    case False
    let ?g1 = "fold storeOnChange cs g"
    have g1: "?g1 = g\<lparr>p_isAnyOneStoreChanged := True,
       heap := (heap g)[p_currentChangingStores g :=
          pushNew (if p_isAnyOneStoreChanged g then heap g ! p_currentChangingStores g else []) cs]\<rparr>"
      using snoc False by simp
    have w1: "wf_group ?g1" using snoc.prems by (simp add: g1 wf_group_def)
    have "fold storeOnChange (cs @ [s]) g = storeOnChange s ?g1" by simp
    also have "\<dots> = ?g1\<lparr>p_isAnyOneStoreChanged := True,
       heap := (heap ?g1)[p_currentChangingStores ?g1 :=
          pushNew (if p_isAnyOneStoreChanged ?g1 then heap ?g1 ! p_currentChangingStores ?g1 else []) [s]]\<rparr>"
      using w1 by (rule storeOnChange_fields)
    also have "\<dots> = g\<lparr>p_isAnyOneStoreChanged := True,
       heap := (heap g)[p_currentChangingStores g :=
          pushNew (if p_isAnyOneStoreChanged g then heap g ! p_currentChangingStores g else []) (cs @ [s])]\<rparr>"
      using snoc.prems(1) unfolding pushNew_append by (simp add: g1 wf_group_def)
    finally show ?thesis .
  qed
qed

section \<open>Arrays the group does not own are never written\<close>

lemma keeps_refl: "wf_group g \<Longrightarrow> keeps a g g"
  by (simp add: keeps_def)

lemma keeps_trans:
  "keeps a g g' \<Longrightarrow> keeps a g' g'' \<Longrightarrow> keeps a g g''"
  by (auto simp add: keeps_def)

lemma keeps_emitChange:
  "wf_group g \<Longrightarrow> a < length (heap g) \<Longrightarrow> keeps a g (emitChange g)"
  by (cases "p_isAnyOneStoreChanged g")
     (simp_all add: emitChange_unchanged emitChange_fields keeps_def wf_group_def nth_append)

lemma keeps_storeOnChange:
  "wf_group g \<Longrightarrow> a \<noteq> p_currentChangingStores g \<Longrightarrow> keeps a g (storeOnChange s g)"
  by (simp add: storeOnChange_fields keeps_def wf_group_def)

lemma keeps_tryToEmitChange:
  "wf_group g \<Longrightarrow> a < length (heap g) \<Longrightarrow> keeps a g (tryToEmitChange g p m)"
  by (simp add: tryToEmitChange_def keeps_emitChange keeps_refl)

lemma keeps_fold_storeOnChange:
  "wf_group g \<Longrightarrow> a \<noteq> p_currentChangingStores g \<Longrightarrow> keeps a g (fold storeOnChange ls g)"
proof (induction ls arbitrary: g)
  case Nil
  then show ?case by (simp add: keeps_refl)
next
  case (Cons l ls)
  have k: "keeps a g (storeOnChange l g)"
    using Cons.prems by (rule keeps_storeOnChange)
  then have "keeps a (storeOnChange l g) (fold storeOnChange ls (storeOnChange l g))"
    using Cons.prems by (intro Cons.IH) (simp_all add: keeps_def)
  with k show ?case by (auto intro: keeps_trans)
qed

lemma unsubscribe_heap [simp]:
  "heap (unsubscribe r g) = heap g"
  "p_currentChangingStores (unsubscribe r g) = p_currentChangingStores g"
  "p_isAnyOneStoreChanged (unsubscribe r g) = p_isAnyOneStoreChanged g"
  "emitted (unsubscribe r g) = emitted g"
  "delivered (unsubscribe r g) = delivered g"
  "released (unsubscribe r g) = released g"
  "p_releaseHandlers (unsubscribe r g) = p_releaseHandlers g"
  by (cases r; simp)+

lemma callReleaseHandler_simps [simp]:
  "heap (callReleaseHandler g r) = heap g"
  "p_currentChangingStores (callReleaseHandler g r) = p_currentChangingStores g"
  "p_isAnyOneStoreChanged (callReleaseHandler g r) = p_isAnyOneStoreChanged g"
  "emitted (callReleaseHandler g r) = emitted g"
  "delivered (callReleaseHandler g r) = delivered g"
  "released (callReleaseHandler g r) = released g @ [r]"
  "p_releaseHandlers (callReleaseHandler g r) = p_releaseHandlers g"
  by (simp_all add: callReleaseHandler_def)

lemma foldl_callReleaseHandler_simps [simp]:
  "heap (foldl callReleaseHandler g rs) = heap g"
  "p_currentChangingStores (foldl callReleaseHandler g rs) = p_currentChangingStores g"
  "p_isAnyOneStoreChanged (foldl callReleaseHandler g rs) = p_isAnyOneStoreChanged g"
  "emitted (foldl callReleaseHandler g rs) = emitted g"
  "delivered (foldl callReleaseHandler g rs) = delivered g"
  "released (foldl callReleaseHandler g rs) = released g @ rs"
  "p_releaseHandlers (foldl callReleaseHandler g rs) = p_releaseHandlers g"
  by (induction rs arbitrary: g; simp)+

lemma release_simps [simp]:
  "heap (release g) = heap g"
  "p_currentChangingStores (release g) = p_currentChangingStores g"
  "p_isAnyOneStoreChanged (release g) = p_isAnyOneStoreChanged g"
  "emitted (release g) = emitted g"
  "delivered (release g) = delivered g"
  "released (release g) = released g @ p_releaseHandlers g"
  "p_releaseHandlers (release g) = []"
  by (simp_all add: release_def)

lemma keeps_step:
  "wf_group g \<Longrightarrow> a < length (heap g) \<Longrightarrow> a \<noteq> p_currentChangingStores g \<Longrightarrow> keeps a g (step e g)"
proof (cases e)
  case (StoreChanged s)
  assume "wf_group g" "a \<noteq> p_currentChangingStores g"
  then show ?thesis using StoreChanged
    by (simp add: storeEmitsChange_def keeps_fold_storeOnChange)
next
  case (Dispatched p m)
  assume "wf_group g" "a < length (heap g)"
  then show ?thesis using Dispatched
    by (simp add: dispatch_def keeps_tryToEmitChange keeps_refl)
next
  case CallEmitChange
  assume "wf_group g" "a < length (heap g)"
  then show ?thesis using CallEmitChange by (simp add: keeps_emitChange)
next
  case (CallOnChange h)
  assume "wf_group g"
  then show ?thesis using CallOnChange by (simp add: onChange_def keeps_def wf_group_def)
next
  case (CallUnsubscribe h)
  assume "wf_group g"
  then show ?thesis using CallUnsubscribe by (simp add: keeps_def wf_group_def)
next
  case CallRelease
  assume "wf_group g"
  then show ?thesis using CallRelease by (simp add: keeps_def wf_group_def)
qed

lemma keeps_run:
  "wf_group g \<Longrightarrow> a < length (heap g) \<Longrightarrow> a \<noteq> p_currentChangingStores g \<Longrightarrow> keeps a g (run es g)"
proof (induction es arbitrary: g)
  case Nil
  then show ?case by (simp add: keeps_refl)
next
  case (Cons e es)
  have k: "keeps a g (step e g)" using Cons.prems by (rule keeps_step)
  then have "keeps a (step e g) (run es (step e g))"
    using Cons.prems by (intro Cons.IH) (simp_all add: keeps_def)
  with k show ?case by (auto intro: keeps_trans)
qed

section \<open>The flush operation\<close>

text \<open>
  C2. In every state of the group (whose array reference is allocated): when
  \<open>_isAnyOneStoreChanged\<close> is false, \<open>emitChange\<close> changes nothing and emits nothing. When
  it is true, \<open>emitChange\<close> emits exactly one notification, delivered to every subscriber;
  the notification carries a new array (\<open>snapshot\<close>, another address than the group's own
  array) with the elements of \<open>_currentChangingStores\<close>, and whatever the group does
  afterwards (any run of store changes, dispatched events, flushes, subscriptions and
  releases) leaves that array as delivered; the flag is reset to false; the group's own array
  keeps its elements.
\<close>

theorem emitChange_contract:
  assumes "wf_group g"
  shows "if p_isAnyOneStoreChanged g
         then (let g' = emitChange g; snapshot = length (heap g) in
               emitted g' = emitted g @ [snapshot] \<and>
               delivered g' = delivered g @ map (\<lambda>h. (h, snapshot)) (changeListeners g) \<and>
               array_at g' snapshot = array_at g (p_currentChangingStores g) \<and>
               snapshot \<noteq> p_currentChangingStores g' \<and>
               (\<forall>es. array_at (run es g') snapshot = array_at g (p_currentChangingStores g)) \<and>
               \<not> p_isAnyOneStoreChanged g' \<and>
               p_currentChangingStores g' = p_currentChangingStores g \<and>
               array_at g' (p_currentChangingStores g') = array_at g (p_currentChangingStores g))
         else emitChange g = g"
proof (cases "p_isAnyOneStoreChanged g")
  case False
  then show ?thesis by (simp add: emitChange_unchanged)
next
  case True
  let ?g' = "emitChange g"
  let ?a = "length (heap g)"
  have f: "?g' = g\<lparr>heap := heap g @ [heap g ! p_currentChangingStores g],
                      emitted := emitted g @ [length (heap g)],
                      delivered := delivered g @ map (\<lambda>h. (h, length (heap g))) (changeListeners g),
                      p_isAnyOneStoreChanged := False\<rparr>"
    using True by (rule emitChange_fields)
  have w: "wf_group ?g'" "?a < length (heap ?g')" "?a \<noteq> p_currentChangingStores ?g'"
    using assms by (simp_all add: f wf_group_def)
  have snap: "heap ?g' ! ?a = heap g ! p_currentChangingStores g"
    by (simp add: f)
  have later: "array_at (run es ?g') ?a = array_at g (p_currentChangingStores g)" for es
    using keeps_run [OF w, of es] snap by (simp add: keeps_def array_at_def)
  have own: "array_at ?g' (p_currentChangingStores ?g') = array_at g (p_currentChangingStores g)"
    using assms by (simp add: f array_at_def wf_group_def nth_append)
  show ?thesis
    using True assms later own
    by (simp add: Let_def) (simp add: f array_at_def wf_group_def)
qed

theorem emitChange_contract_witness:
  "let g = run [CallOnChange 5, StoreChanged 1, StoreChanged 2]
             (projr (newQueuedStoreGroup (\<lambda>_. None) [1, 2] \<lparr>asap = None\<rparr>))
   in wf_group g \<and> p_isAnyOneStoreChanged g \<and>
      emitted (emitChange g) = [1] \<and>
      delivered (emitChange g) = [(5, 1)] \<and>
      array_at (emitChange g) 1 = [1, 2] \<and>
      (\<forall>es. array_at (run es (emitChange g)) 1 = [1, 2]) \<and>
      \<not> p_isAnyOneStoreChanged (emitChange g) \<and>
      array_at (emitChange g) (p_currentChangingStores (emitChange g)) = [1, 2]"
  using emitChange_contract [of "run [CallOnChange 5, StoreChanged 1, StoreChanged 2]
       (projr (newQueuedStoreGroup (\<lambda>_. None) [1, 2] \<lparr>asap = None\<rparr>))"]
  by (simp add: eval_defs)

section \<open>Coalescing of store changes\<close>

text \<open>
  C3. Take a state in which \<open>_isAnyOneStoreChanged\<close> is false (as after construction or
  after a flush), whatever stale stores its array still holds, and let the stores \<open>cs\<close>
  announce changes, in this order, before the next flush. If \<open>cs\<close> is empty the flush does
  nothing. Otherwise it emits one snapshot that holds exactly the stores of \<open>cs\<close>, each
  once, ordered by the position of their first change in \<open>cs\<close>; a stale store that is not
  in \<open>cs\<close> is not in the snapshot.
\<close>

theorem snapshot_first_changes:
  assumes "wf_group g" and "\<not> p_isAnyOneStoreChanged g"
  shows "let g1 = fold storeOnChange cs g; g2 = emitChange g1; snapshot = length (heap g1) in
         if cs = [] then g2 = g
         else emitted g2 = emitted g @ [snapshot] \<and>
              set (array_at g2 snapshot) = set cs \<and>
              distinct (array_at g2 snapshot) \<and>
              sorted_wrt (\<lambda>x y. firstChange cs x < firstChange cs y) (array_at g2 snapshot)"
proof (cases "cs = []")
  case True
  then show ?thesis using assms by (simp add: emitChange_unchanged)
next
  case False
  let ?g1 = "fold storeOnChange cs g"
  have g1: "?g1 = g\<lparr>p_isAnyOneStoreChanged := True,
       heap := (heap g)[p_currentChangingStores g := pushNew [] cs]\<rparr>"
    using fold_storeOnChange_fields [OF assms(1) False] assms(2) by simp
  have flag: "p_isAnyOneStoreChanged ?g1" by (simp add: g1)
  have snap: "array_at (emitChange ?g1) (length (heap ?g1)) = pushNew [] cs"
    using assms(1) by (simp add: emitChange_fields [OF flag] array_at_def) (simp add: g1 wf_group_def)
  have em: "emitted (emitChange ?g1) = emitted g @ [length (heap ?g1)]"
    by (simp add: emitChange_fields [OF flag]) (simp add: g1)
  show ?thesis
    unfolding Let_def snap em using False
    by (simp add: set_pushNew distinct_pushNew sorted_pushNew)
qed

theorem snapshot_first_changes_witness:
  "let g = run [StoreChanged 1, StoreChanged 2, CallEmitChange]
             (projr (newQueuedStoreGroup (\<lambda>_. None) [1, 2, 3] \<lparr>asap = None\<rparr>));
       g2 = emitChange (fold storeOnChange [3, 1, 3] g)
   in wf_group g \<and> \<not> p_isAnyOneStoreChanged g \<and>
      array_at g (p_currentChangingStores g) = [1, 2] \<and>
      emitted g2 = [1, 2] \<and>
      set (array_at g2 2) = set [3, 1, 3] \<and> distinct (array_at g2 2) \<and>
      sorted_wrt (\<lambda>x y. firstChange [3, 1, 3] x < firstChange [3, 1, 3] y) (array_at g2 2) \<and>
      array_at g2 2 = [3, 1]"
  using snapshot_first_changes [of "run [StoreChanged 1, StoreChanged 2, CallEmitChange]
             (projr (newQueuedStoreGroup (\<lambda>_. None) [1, 2, 3] \<lparr>asap = None\<rparr>))" "[3, 1, 3]"]
  by (simp add: eval_defs firstChange_def)


section \<open>The flag and the array of changing stores\<close>

lemma hasChangingStore_iff:
  "hasChangingStore g = (heap g ! p_currentChangingStores g \<noteq> [])"
  by (simp add: hasChangingStore_def currentChangingStores_def array_at_def)

lemma pushNew_not_Nil: "cs \<noteq> [] \<Longrightarrow> pushNew acc cs \<noteq> []"
  using set_pushNew [of acc cs] by (cases cs) auto

lemma good_storeOnChange:
  "wf_group g \<Longrightarrow> wf_group (storeOnChange s g) \<and> changeRecorded (storeOnChange s g)"
  by (simp add: storeOnChange_fields changeRecorded_def hasChangingStore_iff wf_group_def
      pushNew_not_Nil del: pushNew.simps)

lemma good_fold_storeOnChange:
  "wf_group g \<and> changeRecorded g \<Longrightarrow>
     wf_group (fold storeOnChange ls g) \<and> changeRecorded (fold storeOnChange ls g)"
  by (induction ls arbitrary: g) (simp_all add: good_storeOnChange)

lemma good_emitChange:
  "wf_group g \<and> changeRecorded g \<Longrightarrow> wf_group (emitChange g) \<and> changeRecorded (emitChange g)"
  by (cases "p_isAnyOneStoreChanged g")
     (simp_all add: emitChange_unchanged emitChange_fields wf_group_def changeRecorded_def)

lemma good_tryToEmitChange:
  "wf_group g \<and> changeRecorded g \<Longrightarrow>
     wf_group (tryToEmitChange g p m) \<and> changeRecorded (tryToEmitChange g p m)"
  using good_emitChange [of g] by (simp add: tryToEmitChange_def)

lemma good_step:
  "wf_group g \<and> changeRecorded g \<Longrightarrow> wf_group (step e g) \<and> changeRecorded (step e g)"
proof (cases e)
  case (StoreChanged s)
  assume "wf_group g \<and> changeRecorded g"
  then show ?thesis unfolding StoreChanged step.simps storeEmitsChange_def
    by (rule good_fold_storeOnChange)
next
  case (Dispatched p m)
  assume "wf_group g \<and> changeRecorded g"
  then show ?thesis using good_tryToEmitChange [of g p m]
    by (simp add: Dispatched dispatch_def)
next
  case CallEmitChange
  assume "wf_group g \<and> changeRecorded g"
  then show ?thesis using good_emitChange [of g] by (simp add: CallEmitChange)
next
  case (CallOnChange h)
  assume "wf_group g \<and> changeRecorded g"
  then show ?thesis
    by (simp add: CallOnChange onChange_def wf_group_def changeRecorded_def hasChangingStore_iff)
next
  case (CallUnsubscribe h)
  assume "wf_group g \<and> changeRecorded g"
  then show ?thesis
    by (simp add: CallUnsubscribe wf_group_def changeRecorded_def hasChangingStore_iff)
next
  case CallRelease
  assume "wf_group g \<and> changeRecorded g"
  then show ?thesis
    by (simp add: CallRelease wf_group_def changeRecorded_def hasChangingStore_iff)
qed

lemma good_run:
  "wf_group g \<and> changeRecorded g \<Longrightarrow> wf_group (run es g) \<and> changeRecorded (run es g)"
proof (induction es arbitrary: g)
  case Nil
  then show ?case by simp
next
  case (Cons e es)
  from Cons.prems have "wf_group (step e g) \<and> changeRecorded (step e g)" by (rule good_step)
  then show ?case unfolding run.simps by (rule Cons.IH)
qed

lemma foldl_registerStore_fields [simp]:
  "heap (foldl registerStore g ss) = heap g"
  "p_currentChangingStores (foldl registerStore g ss) = p_currentChangingStores g"
  "p_isAnyOneStoreChanged (foldl registerStore g ss) = p_isAnyOneStoreChanged g"
  by (induction ss arbitrary: g; simp add: registerStore_def)+

lemma good_new:
  assumes "newQueuedStoreGroup validateStores sts options = Inr g0"
  shows "wf_group g0 \<and> changeRecorded g0"
proof -
  from assms have v: "validateStores sts = None"
    by (cases "validateStores sts") (simp_all add: newQueuedStoreGroup_def)
  show ?thesis
    using assms unfolding newQueuedStoreGroup_def v
    by (auto simp add: Let_def wf_group_def changeRecorded_def)
qed

text \<open>
  C10. In every state the group reaches from its constructor, by any run of store changes,
  dispatched events, flushes, subscriptions and releases: when \<open>_isAnyOneStoreChanged\<close> is
  true, the array \<open>_currentChangingStores\<close> is not empty. So the test
  \<open>if (this.hasChangingStore) this.emitChange()\<close> of the dispatch callback does what a bare
  \<open>this.emitChange()\<close> does: it misses no change the flag records.
\<close>

theorem changed_flag_implies_changing_stores:
  assumes "newQueuedStoreGroup validateStores sts options = Inr g0"
  shows "(p_isAnyOneStoreChanged (run es g0) \<longrightarrow>
            array_at (run es g0) (p_currentChangingStores (run es g0)) \<noteq> []) \<and>
         (if hasChangingStore (run es g0) then emitChange (run es g0) else run es g0)
            = emitChange (run es g0)"
proof -
  have "wf_group (run es g0) \<and> changeRecorded (run es g0)"
    using good_new [OF assms] by (rule good_run)
  then have c: "p_isAnyOneStoreChanged (run es g0) \<longrightarrow> hasChangingStore (run es g0)"
    by (simp add: changeRecorded_def)
  then show ?thesis
    by (auto simp add: hasChangingStore_iff array_at_def emitChange_unchanged)
qed

theorem changed_flag_implies_changing_stores_witness:
  "newQueuedStoreGroup (\<lambda>_. None) [1, 2] \<lparr>asap = None\<rparr>
     = Inr (projr (newQueuedStoreGroup (\<lambda>_. None) [1, 2] \<lparr>asap = None\<rparr>)) \<and>
   p_isAnyOneStoreChanged (run [StoreChanged 2, CallEmitChange, StoreChanged 1]
      (projr (newQueuedStoreGroup (\<lambda>_. None) [1, 2] \<lparr>asap = None\<rparr>))) \<and>
   array_at (run [StoreChanged 2, CallEmitChange, StoreChanged 1]
      (projr (newQueuedStoreGroup (\<lambda>_. None) [1, 2] \<lparr>asap = None\<rparr>))) 0 = [1] \<and>
   array_at (run [StoreChanged 2, CallEmitChange, StoreChanged 1]
      (projr (newQueuedStoreGroup (\<lambda>_. None) [1, 2] \<lparr>asap = None\<rparr>)))
     (p_currentChangingStores (run [StoreChanged 2, CallEmitChange, StoreChanged 1]
      (projr (newQueuedStoreGroup (\<lambda>_. None) [1, 2] \<lparr>asap = None\<rparr>)))) \<noteq> []"
  using changed_flag_implies_changing_stores [of "\<lambda>_. None" "[1, 2]" "\<lparr>asap = None\<rparr>"
      "projr (newQueuedStoreGroup (\<lambda>_. None) [1, 2] \<lparr>asap = None\<rparr>)"
      "[StoreChanged 2, CallEmitChange, StoreChanged 1]"]
  by (simp add: eval_defs)

section \<open>Between a flush and the next store change\<close>

lemma tryToEmitChange_idle:
  "\<not> p_isAnyOneStoreChanged g \<Longrightarrow> tryToEmitChange g p m = g"
  by (simp add: tryToEmitChange_def emitChange_unchanged)

text \<open>
  C1, as the code has it. A flush of a state in which stores have changed emits one
  notification and resets \<open>_isAnyOneStoreChanged\<close>, and the array keeps its stores.
  \<open>hasChangingStore\<close> reads the length of that array and not the flag, so until the next
  store change it still answers true. What keeps a second notification from being sent
  is the flag test inside \<open>emitChange\<close>: a further \<open>emitChange\<close>, and the dispatch callback
  on any event, leave the state as it is.
\<close>

theorem stale_stores_after_flush:
  assumes "wf_group g" and "p_isAnyOneStoreChanged g"
    and "array_at g (p_currentChangingStores g) \<noteq> []"
  shows "emitted (emitChange g) = emitted g @ [length (heap g)] \<and>
         \<not> p_isAnyOneStoreChanged (emitChange g) \<and>
         array_at (emitChange g) (currentChangingStores (emitChange g))
            = array_at g (currentChangingStores g) \<and>
         hasChangingStore (emitChange g) \<and>
         emitChange (emitChange g) = emitChange g \<and>
         (\<forall>p m. tryToEmitChange (emitChange g) p m = emitChange g)"
proof -
  have f: "\<not> p_isAnyOneStoreChanged (emitChange g)"
    by (simp add: emitChange_fields [OF assms(2)])
  have a: "array_at (emitChange g) (currentChangingStores (emitChange g))
            = array_at g (currentChangingStores g)"
    using assms(1)
    by (simp add: emitChange_fields [OF assms(2)] array_at_def currentChangingStores_def
        wf_group_def nth_append)
  have h: "hasChangingStore (emitChange g)"
    using assms(3) a by (simp add: hasChangingStore_def currentChangingStores_def)
  have e: "emitted (emitChange g) = emitted g @ [length (heap g)]"
    by (simp add: emitChange_fields [OF assms(2)])
  show ?thesis
    using f a h e by (simp add: emitChange_unchanged tryToEmitChange_idle)
qed

theorem stale_stores_after_flush_witness:
  "wf_group (storeOnChange 1 (projr (newQueuedStoreGroup (\<lambda>_. None) [1] \<lparr>asap = None\<rparr>))) \<and>
   p_isAnyOneStoreChanged (storeOnChange 1 (projr (newQueuedStoreGroup (\<lambda>_. None) [1] \<lparr>asap = None\<rparr>))) \<and>
   array_at (storeOnChange 1 (projr (newQueuedStoreGroup (\<lambda>_. None) [1] \<lparr>asap = None\<rparr>))) 0 = [1] \<and>
   hasChangingStore (emitChange (storeOnChange 1
      (projr (newQueuedStoreGroup (\<lambda>_. None) [1] \<lparr>asap = None\<rparr>)))) \<and>
   (\<forall>p m. tryToEmitChange (emitChange (storeOnChange 1
      (projr (newQueuedStoreGroup (\<lambda>_. None) [1] \<lparr>asap = None\<rparr>)))) p m
     = emitChange (storeOnChange 1 (projr (newQueuedStoreGroup (\<lambda>_. None) [1] \<lparr>asap = None\<rparr>))))"
  using stale_stores_after_flush [of "storeOnChange 1
      (projr (newQueuedStoreGroup (\<lambda>_. None) [1] \<lparr>asap = None\<rparr>))"]
  by (simp add: eval_defs)

text \<open>
  C1 as stated fails: right after the flush of a change of store 1, the flag is false and
  \<open>hasChangingStore\<close> is true.
\<close>

theorem hasChangingStore_after_flush_counterexample:
  "p_isAnyOneStoreChanged (storeOnChange 1
      (projr (newQueuedStoreGroup (\<lambda>_. None) [1] \<lparr>asap = None\<rparr>))) \<and>
   emitted (emitChange (storeOnChange 1
      (projr (newQueuedStoreGroup (\<lambda>_. None) [1] \<lparr>asap = None\<rparr>)))) = [1] \<and>
   \<not> p_isAnyOneStoreChanged (emitChange (storeOnChange 1
      (projr (newQueuedStoreGroup (\<lambda>_. None) [1] \<lparr>asap = None\<rparr>)))) \<and>
   hasChangingStore (emitChange (storeOnChange 1
      (projr (newQueuedStoreGroup (\<lambda>_. None) [1] \<lparr>asap = None\<rparr>))))"
  by (simp add: eval_defs)

section \<open>The dispatch callback\<close>

text \<open>
  C4, as the code has it. For an event whose metadata is system-trusted and whose payload
  is \<open>DidExecutedPayload\<close> or \<open>CompletedPayload\<close>, in a state where a change the flag
  records is in the array: with \<open>asap\<close> false and a parent use case, \<open>tryToEmitChange\<close>
  leaves the state as it is and emits nothing; otherwise it does what \<open>emitChange\<close> does,
  one notification when a store changed since the last flush and none when not.
\<close>

theorem trusted_did_execute_or_completed:
  assumes "isTrusted m" and "p = DidExecutedPayload \<or> p = CompletedPayload"
    and "changeRecorded g"
  shows "tryToEmitChange g p m =
           (if \<not> c_asap g \<and> parentUseCase m \<noteq> None then g else emitChange g) \<and>
         (if \<not> c_asap g \<and> parentUseCase m \<noteq> None then emitted (tryToEmitChange g p m) = emitted g
          else if p_isAnyOneStoreChanged g
               then emitted (tryToEmitChange g p m) = emitted g @ [length (heap g)]
               else emitted (tryToEmitChange g p m) = emitted g)"
proof -
  have eq: "tryToEmitChange g p m =
           (if \<not> c_asap g \<and> parentUseCase m \<noteq> None then g else emitChange g)"
    using assms
    by (auto simp add: tryToEmitChange_def isErrorPayload_def isDidExecutedPayload_def
        isCompletedPayload_def changeRecorded_def emitChange_unchanged)
  show ?thesis
    unfolding eq
    by (cases "p_isAnyOneStoreChanged g") (simp_all add: emitChange_unchanged emitChange_fields)
qed

theorem trusted_did_execute_or_completed_witness:
  "isTrusted \<lparr>isTrusted = True, parentUseCase = Some 7\<rparr> \<and>
   changeRecorded (storeOnChange 1 (projr (newQueuedStoreGroup (\<lambda>_. None) [1] \<lparr>asap = None\<rparr>))) \<and>
   changeRecorded (storeOnChange 1 (projr (newQueuedStoreGroup (\<lambda>_. None) [1] \<lparr>asap = Some True\<rparr>))) \<and>
   emitted (tryToEmitChange (storeOnChange 1 (projr (newQueuedStoreGroup (\<lambda>_. None) [1] \<lparr>asap = None\<rparr>)))
      DidExecutedPayload \<lparr>isTrusted = True, parentUseCase = Some 7\<rparr>) = [] \<and>
   emitted (tryToEmitChange (storeOnChange 1 (projr (newQueuedStoreGroup (\<lambda>_. None) [1] \<lparr>asap = None\<rparr>)))
      CompletedPayload \<lparr>isTrusted = True, parentUseCase = None\<rparr>) = [1] \<and>
   emitted (tryToEmitChange (storeOnChange 1 (projr (newQueuedStoreGroup (\<lambda>_. None) [1] \<lparr>asap = Some True\<rparr>)))
      DidExecutedPayload \<lparr>isTrusted = True, parentUseCase = Some 7\<rparr>) = [1]"
  using
    trusted_did_execute_or_completed [of "\<lparr>isTrusted = True, parentUseCase = Some 7\<rparr>"
      DidExecutedPayload
      "storeOnChange 1 (projr (newQueuedStoreGroup (\<lambda>_. None) [1] \<lparr>asap = None\<rparr>))"]
    trusted_did_execute_or_completed [of "\<lparr>isTrusted = True, parentUseCase = None\<rparr>"
      CompletedPayload
      "storeOnChange 1 (projr (newQueuedStoreGroup (\<lambda>_. None) [1] \<lparr>asap = None\<rparr>))"]
    trusted_did_execute_or_completed [of "\<lparr>isTrusted = True, parentUseCase = Some 7\<rparr>"
      DidExecutedPayload
      "storeOnChange 1 (projr (newQueuedStoreGroup (\<lambda>_. None) [1] \<lparr>asap = Some True\<rparr>))"]
  by (simp add: eval_defs changeRecorded_def)

text \<open>
  C4 as stated fails for an event that is not system-trusted: with \<open>asap\<close> false, a
  \<open>DidExecutedPayload\<close> with a parent use case takes the first branch of the callback and
  the change of store 1 is flushed.
\<close>

theorem untrusted_did_execute_counterexample:
  "\<not> c_asap (storeOnChange 1 (projr (newQueuedStoreGroup (\<lambda>_. None) [1] \<lparr>asap = Some False\<rparr>))) \<and>
   parentUseCase \<lparr>isTrusted = False, parentUseCase = Some 7\<rparr> \<noteq> None \<and>
   emitted (storeOnChange 1 (projr (newQueuedStoreGroup (\<lambda>_. None) [1] \<lparr>asap = Some False\<rparr>))) = [] \<and>
   emitted (tryToEmitChange
      (storeOnChange 1 (projr (newQueuedStoreGroup (\<lambda>_. None) [1] \<lparr>asap = Some False\<rparr>)))
      DidExecutedPayload \<lparr>isTrusted = False, parentUseCase = Some 7\<rparr>) = [1]"
  by (simp add: eval_defs)

text \<open>
  C5. For an \<open>ErrorPayload\<close>, whatever its metadata (trusted or not, with a parent use case
  or without) and whatever \<open>asap\<close>, in a state where a change the flag records is in the
  array, \<open>tryToEmitChange\<close> does what \<open>emitChange\<close> does: when a store changed since the
  last flush, one notification is emitted, carrying a copy of the array of changing stores.
\<close>

theorem error_event_flushes:
  assumes "changeRecorded g"
  shows "tryToEmitChange g ErrorPayload m = emitChange g \<and>
         (if p_isAnyOneStoreChanged g
          then emitted (tryToEmitChange g ErrorPayload m) = emitted g @ [length (heap g)] \<and>
               array_at (tryToEmitChange g ErrorPayload m) (length (heap g))
                 = array_at g (currentChangingStores g)
          else tryToEmitChange g ErrorPayload m = g)"
proof -
  have eq: "tryToEmitChange g ErrorPayload m = emitChange g"
    using assms
    by (auto simp add: tryToEmitChange_def isErrorPayload_def changeRecorded_def
        emitChange_unchanged)
  show ?thesis
    unfolding eq
    by (cases "p_isAnyOneStoreChanged g")
       (simp_all add: emitChange_unchanged emitChange_fields array_at_def
          currentChangingStores_def)
qed

theorem error_event_flushes_witness:
  "changeRecorded (storeOnChange 1 (projr (newQueuedStoreGroup (\<lambda>_. None) [1] \<lparr>asap = None\<rparr>))) \<and>
   p_isAnyOneStoreChanged (storeOnChange 1 (projr (newQueuedStoreGroup (\<lambda>_. None) [1] \<lparr>asap = None\<rparr>))) \<and>
   emitted (tryToEmitChange (storeOnChange 1 (projr (newQueuedStoreGroup (\<lambda>_. None) [1] \<lparr>asap = None\<rparr>)))
      ErrorPayload \<lparr>isTrusted = True, parentUseCase = Some 7\<rparr>) = [1] \<and>
   array_at (tryToEmitChange (storeOnChange 1 (projr (newQueuedStoreGroup (\<lambda>_. None) [1] \<lparr>asap = None\<rparr>)))
      ErrorPayload \<lparr>isTrusted = True, parentUseCase = Some 7\<rparr>) 1 = [1]"
  using error_event_flushes [of
      "storeOnChange 1 (projr (newQueuedStoreGroup (\<lambda>_. None) [1] \<lparr>asap = None\<rparr>))"
      "\<lparr>isTrusted = True, parentUseCase = Some 7\<rparr>"]
  by (simp add: eval_defs changeRecorded_def)

text \<open>
  C6. For an event whose metadata is not system-trusted, whatever its payload, its parent
  use case and \<open>asap\<close>: \<open>tryToEmitChange\<close> calls \<open>emitChange\<close> when the array of
  changing stores is not empty, and does nothing when it is empty.
\<close>

theorem untrusted_event_flushes:
  assumes "\<not> isTrusted m"
  shows "tryToEmitChange g p m =
           (if array_at g (currentChangingStores g) \<noteq> [] then emitChange g else g)"
  using assms by (simp add: tryToEmitChange_def hasChangingStore_def)

theorem untrusted_event_flushes_witness:
  "\<not> isTrusted \<lparr>isTrusted = False, parentUseCase = Some 7\<rparr> \<and>
   array_at (storeOnChange 1 (projr (newQueuedStoreGroup (\<lambda>_. None) [1] \<lparr>asap = None\<rparr>)))
     (currentChangingStores (storeOnChange 1 (projr (newQueuedStoreGroup (\<lambda>_. None) [1] \<lparr>asap = None\<rparr>))))
     = [1] \<and>
   tryToEmitChange (storeOnChange 1 (projr (newQueuedStoreGroup (\<lambda>_. None) [1] \<lparr>asap = None\<rparr>)))
      CompletedPayload \<lparr>isTrusted = False, parentUseCase = Some 7\<rparr>
     = emitChange (storeOnChange 1 (projr (newQueuedStoreGroup (\<lambda>_. None) [1] \<lparr>asap = None\<rparr>)))"
  using untrusted_event_flushes [of "\<lparr>isTrusted = False, parentUseCase = Some 7\<rparr>"
      "storeOnChange 1 (projr (newQueuedStoreGroup (\<lambda>_. None) [1] \<lparr>asap = None\<rparr>))"
      CompletedPayload]
  by (simp add: eval_defs)

section \<open>Teardown\<close>

text \<open>
  C8. \<open>release\<close> calls the recorded release handlers, each once and in the order of the
  list, and leaves the list empty, so a second \<open>release\<close> calls none. The list is in
  insertion order: \<open>_registerStore\<close> and \<open>onChange\<close> add their handlers at its end.
\<close>

theorem release_calls_each_handler_once:
  "released (release g) = released g @ p_releaseHandlers g \<and>
   p_releaseHandlers (release g) = [] \<and>
   released (release (release g)) = released (release g) \<and>
   p_releaseHandlers (registerStore g s)
     = p_releaseHandlers g @ [ReleaseOnChangeHandler s, ReleaseOnDispatchHandler s] \<and>
   p_releaseHandlers (snd (onChange g h)) = p_releaseHandlers g @ [RemoveChangeListener h]"
  by (simp add: registerStore_def onChange_def)

section \<open>After release\<close>

lemma count_list_removeListener:
  "count_list (removeListener s ls) x = (if x = s then count_list ls x - 1 else count_list ls x)"
  by (simp add: removeListener_def)

lemma storeOnChange_subscriptions [simp]:
  "storeListeners (storeOnChange s g) = storeListeners g"
  "dispatchListening (storeOnChange s g) = dispatchListening g"
  "p_releaseHandlers (storeOnChange s g) = p_releaseHandlers g"
  by (simp_all add: storeOnChange_def pruneCurrentChangingStores_def truncate_array_def
      push_def Let_def)

lemma fold_storeOnChange_subscriptions [simp]:
  "storeListeners (fold storeOnChange ls g) = storeListeners g"
  "dispatchListening (fold storeOnChange ls g) = dispatchListening g"
  "p_releaseHandlers (fold storeOnChange ls g) = p_releaseHandlers g"
  by (induction ls arbitrary: g; simp)+

lemma emitChange_subscriptions [simp]:
  "storeListeners (emitChange g) = storeListeners g"
  "dispatchListening (emitChange g) = dispatchListening g"
  "p_releaseHandlers (emitChange g) = p_releaseHandlers g"
  by (simp_all add: emitChange_def slice_def emit_def)

lemma tryToEmitChange_subscriptions [simp]:
  "storeListeners (tryToEmitChange g p m) = storeListeners g"
  "dispatchListening (tryToEmitChange g p m) = dispatchListening g"
  "p_releaseHandlers (tryToEmitChange g p m) = p_releaseHandlers g"
  by (simp_all add: tryToEmitChange_def)

lemma storeListeners_callReleaseHandler:
  "count_list (storeListeners (callReleaseHandler g r)) s =
     count_list (storeListeners g) s - count_list [r] (ReleaseOnChangeHandler s)"
  by (cases r) (simp_all add: callReleaseHandler_def count_list_removeListener)

lemma dispatchListening_callReleaseHandler:
  "dispatchListening (callReleaseHandler g r) = (dispatchListening g \<and> r \<noteq> UnListenOnDispatch)"
  by (cases r) (simp_all add: callReleaseHandler_def)

lemma storeListeners_foldl_callReleaseHandler:
  "count_list (storeListeners (foldl callReleaseHandler g rs)) s =
     count_list (storeListeners g) s - count_list rs (ReleaseOnChangeHandler s)"
proof (induction rs arbitrary: g)
  case Nil
  then show ?case by simp
next
  case (Cons r rs)
  have "count_list (storeListeners (foldl callReleaseHandler g (r # rs))) s =
        count_list (storeListeners (callReleaseHandler g r)) s
          - count_list rs (ReleaseOnChangeHandler s)"
    by (simp add: Cons.IH)
  also have "\<dots> = count_list (storeListeners g) s - count_list [r] (ReleaseOnChangeHandler s)
          - count_list rs (ReleaseOnChangeHandler s)"
    by (simp only: storeListeners_callReleaseHandler)
  also have "\<dots> = count_list (storeListeners g) s - count_list (r # rs) (ReleaseOnChangeHandler s)"
    by simp
  finally show ?case .
qed

lemma dispatchListening_foldl_callReleaseHandler:
  "dispatchListening (foldl callReleaseHandler g rs) =
     (dispatchListening g \<and> UnListenOnDispatch \<notin> set rs)"
  by (induction rs arbitrary: g) (auto simp add: dispatchListening_callReleaseHandler)

lemma no_counts_Nil:
  assumes "\<And>x. count_list xs x = 0"
  shows "xs = []"
proof -
  have "x \<notin> set xs" for x
    using assms [of x] count_list_0_iff [of xs x] by blast
  then show ?thesis by (cases xs) auto
qed

lemma release_unsubscribes:
  assumes "subscriptionsRecorded g"
  shows "storeListeners (release g) = [] \<and> \<not> dispatchListening (release g)"
proof -
  have "count_list (storeListeners (release g)) s = 0" for s
    using assms
    by (simp add: release_def storeListeners_foldl_callReleaseHandler subscriptionsRecorded_def)
  then have "storeListeners (release g) = []" by (rule no_counts_Nil)
  moreover have "\<not> dispatchListening (release g)"
    using assms
    by (auto simp add: release_def dispatchListening_foldl_callReleaseHandler
        subscriptionsRecorded_def)
  ultimately show ?thesis by simp
qed

lemma recorded_step:
  assumes "subscriptionsRecorded g"
  shows "subscriptionsRecorded (step e g)"
proof (cases e)
  case (StoreChanged s)
  then show ?thesis using assms by (simp add: storeEmitsChange_def subscriptionsRecorded_def)
next
  case (Dispatched p m)
  then show ?thesis using assms by (simp add: dispatch_def subscriptionsRecorded_def)
next
  case CallEmitChange
  then show ?thesis using assms by (simp add: subscriptionsRecorded_def)
next
  case (CallOnChange h)
  then show ?thesis using assms
    by (auto simp add: onChange_def subscriptionsRecorded_def)
next
  case (CallUnsubscribe h)
  then show ?thesis using assms
    by (simp add: callReleaseHandler_def subscriptionsRecorded_def)
next
  case CallRelease
  then show ?thesis using release_unsubscribes [OF assms]
    by (simp add: subscriptionsRecorded_def)
qed

lemma recorded_run: "subscriptionsRecorded g \<Longrightarrow> subscriptionsRecorded (run es g)"
  by (induction es arbitrary: g) (simp_all add: recorded_step)

lemma foldl_registerStore_subscriptions:
  "storeListeners (foldl registerStore g ss) = storeListeners g @ ss"
  "count_list (p_releaseHandlers (foldl registerStore g ss)) (ReleaseOnChangeHandler s) =
     count_list (p_releaseHandlers g) (ReleaseOnChangeHandler s) + count_list ss s"
  by (induction ss arbitrary: g; simp add: registerStore_def)+

lemma recorded_new:
  assumes "newQueuedStoreGroup validateStores sts options = Inr g0"
  shows "subscriptionsRecorded g0"
proof -
  from assms have v: "validateStores sts = None"
    by (cases "validateStores sts") (simp_all add: newQueuedStoreGroup_def)
  show ?thesis
    using assms unfolding newQueuedStoreGroup_def v
    by (auto simp add: Let_def subscriptionsRecorded_def foldl_registerStore_subscriptions)
qed

lemma unsubscribed_step:
  assumes "storeListeners g = []" and "\<not> dispatchListening g" and "e \<noteq> CallEmitChange"
  shows "storeListeners (step e g) = [] \<and> \<not> dispatchListening (step e g) \<and>
         emitted (step e g) = emitted g \<and> delivered (step e g) = delivered g \<and>
         heap (step e g) = heap g \<and>
         p_isAnyOneStoreChanged (step e g) = p_isAnyOneStoreChanged g \<and>
         (isNotification e \<longrightarrow> step e g = g)"
proof (cases e)
  case (StoreChanged s)
  then show ?thesis using assms by (simp add: storeEmitsChange_def)
next
  case (Dispatched p m)
  then show ?thesis using assms by (simp add: dispatch_def)
next
  case CallEmitChange
  then show ?thesis using assms by simp
next
  case (CallOnChange h)
  then show ?thesis using assms by (simp add: onChange_def)
next
  case (CallUnsubscribe h)
  then show ?thesis using assms by (simp add: callReleaseHandler_def)
next
  case CallRelease
  have "count_list (storeListeners (release g)) s = 0" for s
    using assms(1) by (simp add: release_def storeListeners_foldl_callReleaseHandler)
  then have "storeListeners (release g) = []" by (rule no_counts_Nil)
  moreover have "\<not> dispatchListening (release g)"
    using assms(2) by (simp add: release_def dispatchListening_foldl_callReleaseHandler)
  ultimately show ?thesis using CallRelease by simp
qed

lemma unsubscribed_run:
  assumes "storeListeners g = []" and "\<not> dispatchListening g" and "CallEmitChange \<notin> set es"
  shows "emitted (run es g) = emitted g \<and> delivered (run es g) = delivered g \<and>
         heap (run es g) = heap g \<and>
         p_isAnyOneStoreChanged (run es g) = p_isAnyOneStoreChanged g \<and>
         (list_all isNotification es \<longrightarrow> run es g = g)"
  using assms
proof (induction es arbitrary: g)
  case Nil
  then show ?case by simp
next
  case (Cons e es)
  have e: "e \<noteq> CallEmitChange" and es: "CallEmitChange \<notin> set es"
    using Cons.prems(3) by auto
  note s = unsubscribed_step [OF Cons.prems(1) Cons.prems(2) e]
  have "emitted (run es (step e g)) = emitted (step e g) \<and>
        delivered (run es (step e g)) = delivered (step e g) \<and>
        heap (run es (step e g)) = heap (step e g) \<and>
        p_isAnyOneStoreChanged (run es (step e g)) = p_isAnyOneStoreChanged (step e g) \<and>
        (list_all isNotification es \<longrightarrow> run es (step e g) = step e g)"
    using s es by (intro Cons.IH) simp_all
  then show ?case using s by auto
qed

text \<open>
  C7. Take any state the group reaches from its constructor and call \<open>release\<close>. Whatever
  comes later, short of the caller calling \<open>emitChange()\<close> itself (store changes,
  dispatched events, \<open>onChange\<close>, unsubscribing, a second \<open>release\<close>), no notification is
  emitted and none is delivered to a subscriber, and neither the flag nor any array of
  changing stores changes: the callbacks of the group are not called any more. When only
  store changes and dispatched events come later, the whole state stays as \<open>release\<close> left
  it. This rests on the release handlers removing the subscriptions they stand for.
\<close>

theorem no_flush_after_release:
  assumes "newQueuedStoreGroup validateStores sts options = Inr g0"
    and "CallEmitChange \<notin> set later"
  shows "emitted (run later (release (run earlier g0))) = emitted (run earlier g0) \<and>
         delivered (run later (release (run earlier g0))) = delivered (run earlier g0) \<and>
         heap (run later (release (run earlier g0))) = heap (run earlier g0) \<and>
         p_isAnyOneStoreChanged (run later (release (run earlier g0)))
           = p_isAnyOneStoreChanged (run earlier g0) \<and>
         (if list_all isNotification later
          then run later (release (run earlier g0)) = release (run earlier g0)
          else True)"
proof -
  have "subscriptionsRecorded (run earlier g0)"
    using recorded_new [OF assms(1)] by (rule recorded_run)
  then have "storeListeners (release (run earlier g0)) = [] \<and>
             \<not> dispatchListening (release (run earlier g0))"
    by (rule release_unsubscribes)
  then show ?thesis
    using unsubscribed_run [of "release (run earlier g0)" later] assms(2) by simp
qed

theorem no_flush_after_release_witness:
  "newQueuedStoreGroup (\<lambda>_. None) [1, 2] \<lparr>asap = None\<rparr>
     = Inr (projr (newQueuedStoreGroup (\<lambda>_. None) [1, 2] \<lparr>asap = None\<rparr>)) \<and>
   CallEmitChange \<notin> set
     [StoreChanged 2, Dispatched ErrorPayload \<lparr>isTrusted = True, parentUseCase = None\<rparr>] \<and>
   p_isAnyOneStoreChanged (release (run [CallOnChange 5, StoreChanged 1]
      (projr (newQueuedStoreGroup (\<lambda>_. None) [1, 2] \<lparr>asap = None\<rparr>)))) \<and>
   emitted (run [StoreChanged 2, Dispatched ErrorPayload \<lparr>isTrusted = True, parentUseCase = None\<rparr>]
     (release (run [CallOnChange 5, StoreChanged 1]
      (projr (newQueuedStoreGroup (\<lambda>_. None) [1, 2] \<lparr>asap = None\<rparr>))))) = [] \<and>
   delivered (run [StoreChanged 2, Dispatched ErrorPayload \<lparr>isTrusted = True, parentUseCase = None\<rparr>]
     (release (run [CallOnChange 5, StoreChanged 1]
      (projr (newQueuedStoreGroup (\<lambda>_. None) [1, 2] \<lparr>asap = None\<rparr>))))) = [] \<and>
   array_at (run [StoreChanged 2, Dispatched ErrorPayload \<lparr>isTrusted = True, parentUseCase = None\<rparr>]
     (release (run [CallOnChange 5, StoreChanged 1]
      (projr (newQueuedStoreGroup (\<lambda>_. None) [1, 2] \<lparr>asap = None\<rparr>))))) 0 = [1] \<and>
   emitted (run [StoreChanged 2, Dispatched ErrorPayload \<lparr>isTrusted = True, parentUseCase = None\<rparr>]
     (run [CallOnChange 5, StoreChanged 1]
      (projr (newQueuedStoreGroup (\<lambda>_. None) [1, 2] \<lparr>asap = None\<rparr>)))) = [1]"
  using no_flush_after_release [of "\<lambda>_. None" "[1, 2]" "\<lparr>asap = None\<rparr>"
      "projr (newQueuedStoreGroup (\<lambda>_. None) [1, 2] \<lparr>asap = None\<rparr>)"
      "[StoreChanged 2, Dispatched ErrorPayload \<lparr>isTrusted = True, parentUseCase = None\<rparr>]"
      "[CallOnChange 5, StoreChanged 1]"]
  by (simp add: eval_defs)

section \<open>Properties of getState\<close>

text \<open>
  What holds of \<open>getState\<close>: when every store's state has \<open>typeof\<close> \<open>"object"\<close>, the
  result is the merge of the states' properties, a key taking the value of the last store
  (and, within one state, the last property) that has it; and outside production, when some
  store's state has another \<open>typeof\<close>, \<open>getState\<close> throws the assertion error whose message
  starts with that store's string and name.
\<close>

lemma assignFrom_map_of:
  "assignFrom t v = t ++ map_of (rev (ownEnumerable v))"
proof -
  have "foldl (\<lambda>t (k, v). t(k \<mapsto> v)) t kvs = t ++ map_of (rev kvs)" for kvs
  proof (induction kvs arbitrary: t)
    case Nil
    then show ?case by simp
  next
    case (Cons kv kvs)
    obtain k v where kv: "kv = (k, v)" by (cases kv)
    have "foldl (\<lambda>t (k, v). t(k \<mapsto> v)) t (kv # kvs)
            = foldl (\<lambda>t (k, v). t(k \<mapsto> v)) (t(k \<mapsto> v)) kvs"
      by (simp add: kv)
    also have "\<dots> = t(k \<mapsto> v) ++ map_of (rev kvs)"
      by (rule Cons.IH)
    also have "\<dots> = t ++ map_of (rev (kv # kvs))"
      by (simp add: kv map_add_upd_left)
    finally show ?case .
  qed
  then show ?thesis by (simp add: assignFrom_def)
qed

lemma ObjectAssign_map_of:
  "ObjectAssign t vs = t ++ map_of (rev (concat (map ownEnumerable vs)))"
  unfolding ObjectAssign_def
  by (induction vs arbitrary: t) (simp_all add: assignFrom_map_of)

lemma stateMapOf_objects:
  "\<forall>s \<in> set ss. typeof (store_getState (obj s)) = ''object'' \<Longrightarrow>
     stateMapOf nodeEnv obj ss = Inr (map (\<lambda>s. store_getState (obj s)) ss)"
  by (induction ss) simp_all

lemma stateMapOf_production:
  "stateMapOf (Some ''production'') obj ss = Inr (map (\<lambda>s. store_getState (obj s)) ss)"
  by (induction ss) simp_all

lemma stateMapOf_asserts:
  "nodeEnv \<noteq> Some ''production'' \<Longrightarrow>
   \<exists>s \<in> set ss. typeof (store_getState (obj s)) \<noteq> ''object'' \<Longrightarrow>
   \<exists>s \<in> set ss. typeof (store_getState (obj s)) \<noteq> ''object'' \<and>
      stateMapOf nodeEnv obj ss = Inl (AssertionError (assertionMessage (obj s)))"
proof (induction ss)
  case Nil
  then show ?case by simp
next
  case (Cons a ss)
  show ?case
  proof (cases "typeof (store_getState (obj a)) = ''object''")
    case False
    then show ?thesis using Cons.prems(1) by simp
  next
    case True
    then have "\<exists>s \<in> set ss. typeof (store_getState (obj s)) \<noteq> ''object''"
      using Cons.prems(2) by auto
    then obtain s where "s \<in> set ss" "typeof (store_getState (obj s)) \<noteq> ''object''"
      "stateMapOf nodeEnv obj ss = Inl (AssertionError (assertionMessage (obj s)))"
      using Cons.IH [OF Cons.prems(1)] by blast
    then show ?thesis using True by auto
  qed
qed

lemma getState_merges:
  assumes "\<forall>s \<in> set (stores g). typeof (store_getState (obj s)) = ''object''"
  shows "getState nodeEnv obj g =
           Inr (map_of (rev (concat (map (\<lambda>s. ownEnumerable (store_getState (obj s))) (stores g)))))"
  by (simp add: getState_def stateMapOf_objects [OF assms] ObjectAssign_map_of comp_def)

lemma getState_asserts:
  assumes "nodeEnv \<noteq> Some ''production''"
    and "\<exists>s \<in> set (stores g). typeof (store_getState (obj s)) \<noteq> ''object''"
  shows "\<exists>s \<in> set (stores g). typeof (store_getState (obj s)) \<noteq> ''object'' \<and>
      getState nodeEnv obj g = Inl (AssertionError
        (store_toString (obj s) @ '': '' @ store_name (obj s) @
           ''.getState() should return Object.'' @ exampleText))"
  using stateMapOf_asserts [OF assms] by (auto simp add: getState_def assertionMessage_def)

text \<open>
  C9, at a store whose \<open>getState()\<close> returns \<open>null\<close>, outside production: \<open>null\<close> is a
  primitive and not a mapping, but \<open>typeof null\<close> is \<open>"object"\<close>, so the assertion passes and
  \<open>getState\<close> returns the empty object, \<open>ObjectAssign\<close> having nothing to copy from
  \<open>null\<close>. The same store returning \<open>undefined\<close> gets the assertion error with its name.
\<close>

theorem getState_accepts_null:
  "typeof JNull = ''object'' \<and>
   getState None
     (\<lambda>s. \<lparr>store_name = ''AStore'', store_toString = ''[object Object]'', store_getState = JNull\<rparr>)
     (projr (newQueuedStoreGroup (\<lambda>_. None) [1] \<lparr>asap = None\<rparr>))
   = Inr Map.empty \<and>
   getState None
     (\<lambda>s. \<lparr>store_name = ''AStore'', store_toString = ''[object Object]'',
            store_getState = JUndefined\<rparr>)
     (projr (newQueuedStoreGroup (\<lambda>_. None) [1] \<lparr>asap = None\<rparr>))
   = Inl (AssertionError (''[object Object]: AStore.getState() should return Object.'' @ exampleText))"
  by (simp add: getState_def ObjectAssign_def assignFrom_def assertionMessage_def
      newQueuedStoreGroup_def registerStore_def Let_def)

end
